theory Spec2Isabelle
  imports Main "HOL-Library.Multiset" "HOL-Library.Log_Nat"
begin

section \<open>The record store and its query interface\<close>

text \<open>
  The hook \<^verbatim>\<open>useGoogleDataEnrichment\<close> reads the table of preschools (written
  \<open>Forskolor\<close> here, without the umlaut) and the table \<^verbatim>\<open>preschool_google_data\<close>.
  From the first it selects the columns \<^verbatim>\<open>id, Namn, Adress, Latitud, Longitud\<close>; the two
  coordinates are nullable. The column \<^verbatim>\<open>id\<close> is \<open>row_id\<close> below.
\<close>

record row =
  row_id :: nat
  Namn :: string
  Adress :: string
  Latitud :: "rat option"
  Longitud :: "rat option"

text \<open>
  Modelled from the spec: the columns of \<^verbatim>\<open>preschool_google_data\<close>. The source only counts
  the rows of this table; the spec describes it as a collection of enriched records
  "keyed by the same identifiers" that carries a "stored enrichment timestamp". Times
  are milliseconds, as \<^verbatim>\<open>Date\<close> counts them.
\<close>

record google_data =
  preschool_id :: nat
  updated_at :: int

record store =
  Forskolor :: "row list"
  preschool_google_data :: "google_data list"

text \<open>
  The store client is a library outside the repository. Its filters are taken by their
  meaning on the list of rows of a table: \<^verbatim>\<open>.not(col, 'is', null)\<close> keeps the rows
  whose column is set, \<^verbatim>\<open>.not(col, 'in', vs)\<close> the rows whose column is none of \<open>vs\<close>,
  \<^verbatim>\<open>.in(col, vs)\<close> the rows whose column is one of \<open>vs\<close>, and \<^verbatim>\<open>.limit(n)\<close> the first
  \<open>n\<close> rows.
\<close>

definition not_is_null :: "('r \<Rightarrow> 'a option) \<Rightarrow> 'r list \<Rightarrow> 'r list" where
  "not_is_null col rs = filter (\<lambda>r. col r \<noteq> None) rs"

definition not_in :: "('r \<Rightarrow> 'a) \<Rightarrow> 'a list \<Rightarrow> 'r list \<Rightarrow> 'r list" where
  "not_in col vs rs = filter (\<lambda>r. col r \<notin> set vs) rs"

definition is_in :: "('r \<Rightarrow> 'a) \<Rightarrow> 'a list \<Rightarrow> 'r list \<Rightarrow> 'r list" where
  "is_in col vs rs = filter (\<lambda>r. col r \<in> set vs) rs"

definition limit :: "nat \<Rightarrow> 'r list \<Rightarrow> 'r list" where
  "limit n rs = take n rs"

text \<open>The two candidate queries of \<^verbatim>\<open>enrichMissingData\<close> (lines 31-43 and 46-58).\<close>

definition preschoolsWithoutData_query :: "store \<Rightarrow> row list" where
  "preschoolsWithoutData_query st =
     limit 25 (not_in row_id [] (not_is_null Longitud (not_is_null Latitud (Forskolor st))))"

definition preschoolsWithOldData_query :: "store \<Rightarrow> row list" where
  "preschoolsWithOldData_query st =
     limit 25 (is_in row_id [] (not_is_null Longitud (not_is_null Latitud (Forskolor st))))"

text \<open>The two counting queries of \<^verbatim>\<open>getEnrichmentStats\<close> (lines 122-129).\<close>

definition totalPreschools_query :: "store \<Rightarrow> row list" where
  "totalPreschools_query st = not_is_null Latitud (Forskolor st)"

definition enrichedPreschools_query :: "store \<Rightarrow> google_data list" where
  "enrichedPreschools_query st = preschool_google_data st"

text \<open>
  An awaited call either resolves to a response \<^verbatim>\<open>{data, error}\<close> or rejects, which
  \<^verbatim>\<open>await\<close> turns into a thrown exception. A request can go wrong in both ways: the
  response carries an error and no data, or the promise rejects.
\<close>

record 'a response =
  data :: "'a list option"
  error :: "string option"

datatype 'a awaited = Resolved 'a | Rejected string

datatype fault = NoFault | ReportsError string | Throws string

definition run_query :: "fault \<Rightarrow> 'a list \<Rightarrow> 'a response awaited" where
  "run_query f rs =
     (case f of
        NoFault \<Rightarrow> Resolved \<lparr>data = Some rs, error = None\<rparr>
      | ReportsError m \<Rightarrow> Resolved \<lparr>data = None, error = Some m\<rparr>
      | Throws m \<Rightarrow> Rejected m)"

text \<open>
  \<^verbatim>\<open>x || []\<close> on a nullable array, \<^verbatim>\<open>x?.length || 0\<close> on a nullable array, and the
  truthiness of a nullable object.
\<close>

definition or_empty :: "'a list option \<Rightarrow> 'a list" where
  "or_empty d = (case d of None \<Rightarrow> [] | Some xs \<Rightarrow> xs)"

definition length_or_0 :: "'a list option \<Rightarrow> nat" where
  "length_or_0 d = (case d of None \<Rightarrow> 0 | Some xs \<Rightarrow> length xs)"

definition truthy :: "'a option \<Rightarrow> bool" where
  "truthy x = (case x of None \<Rightarrow> False | Some v \<Rightarrow> True)"

section \<open>Progress state and observable events\<close>

record EnrichmentProgress =
  total :: nat
  processed :: nat
  errors :: nat
  isRunning :: bool

text \<open>
  What a run does to the outside, in order: the two store queries, one concurrent
  dispatch of the enrichment function per batch, the pauses between batches, and every
  progress state that a call of \<^verbatim>\<open>setProgress\<close> produces. Console output is left out.
\<close>

datatype query = WithoutData | WithOldData

datatype event =
    Select query
  | Dispatch "row list"
  | Delay nat
  | SetProgress EnrichmentProgress

type_synonym world = "EnrichmentProgress \<times> event list"

definition emit :: "event \<Rightarrow> world \<Rightarrow> world" where
  "emit e w = (fst w, snd w @ [e])"

definition setProgress :: "(EnrichmentProgress \<Rightarrow> EnrichmentProgress) \<Rightarrow> world \<Rightarrow> world" where
  "setProgress f w = (f (fst w), snd w @ [SetProgress (f (fst w))])"

text \<open>
  The surroundings of a run: the store, how each of the two candidate queries settles,
  how the enrichment call for the candidate at each position settles, and the order in
  which the calls of one batch complete (the calls of a batch run concurrently; each
  completion handler runs without interruption, there being no \<^verbatim>\<open>await\<close> in it).
\<close>

record env =
  the_store :: store
  fetch1 :: fault
  fetch2 :: fault
  invoke_result :: "nat \<Rightarrow> fault"
  completion_order :: "nat list \<Rightarrow> nat list"

section \<open>enrichMissingData\<close>

definition batchSize :: nat where
  "batchSize = 3"

text \<open>\<^verbatim>\<open>xs.slice(a, b)\<close> for \<open>a \<le> b\<close>.\<close>

definition slice :: "'a list \<Rightarrow> nat \<Rightarrow> nat \<Rightarrow> 'a list" where
  "slice xs a b = take (b - a) (drop a xs)"

text \<open>
  The continuation of one enrichment call (lines 89-101): a reported error increments
  \<open>errors\<close> and then, in a second update, \<open>processed\<close>; a thrown error increments both
  in one update.
\<close>

definition settle_one :: "fault \<Rightarrow> world \<Rightarrow> world" where
  "settle_one f w =
     (case f of
        NoFault \<Rightarrow> setProgress (\<lambda>prev. prev\<lparr>processed := processed prev + 1\<rparr>) w
      | ReportsError m \<Rightarrow>
          setProgress (\<lambda>prev. prev\<lparr>processed := processed prev + 1\<rparr>)
            (setProgress (\<lambda>prev. prev\<lparr>errors := errors prev + 1\<rparr>) w)
      | Throws m \<Rightarrow>
          setProgress (\<lambda>prev. prev\<lparr>processed := processed prev + 1,
                                   errors := errors prev + 1\<rparr>) w)"

text \<open>
  One batch (lines 76-104): the calls for the candidates at positions
  \<open>i, ..., i + length batch - 1\<close> are dispatched together and
  \<^verbatim>\<open>Promise.allSettled\<close> waits for all of them.
\<close>

definition run_batch :: "env \<Rightarrow> nat \<Rightarrow> row list \<Rightarrow> world \<Rightarrow> world" where
  "run_batch e i batch w =
     fold (\<lambda>k. settle_one (invoke_result e k))
          (completion_order e [i ..< i + length batch])
          (emit (Dispatch batch) w)"

function batch_loop :: "env \<Rightarrow> row list \<Rightarrow> nat \<Rightarrow> world \<Rightarrow> world" where
  "batch_loop e preschoolsToEnrich i w =
     (if i < length preschoolsToEnrich then
        let batch = slice preschoolsToEnrich i (i + batchSize);
            w1 = run_batch e i batch w;
            w2 = (if i + batchSize < length preschoolsToEnrich
                  then emit (Delay 2000) w1 else w1)
        in batch_loop e preschoolsToEnrich (i + batchSize) w2
      else w)"
  by pat_completeness auto
termination
  by (relation "measure (\<lambda>(e, ps, i, w). length ps - i)") (auto simp: batchSize_def)

declare batch_loop.simps [simp del]

text \<open>
  The body of the \<^verbatim>\<open>try\<close> block (lines 26-112). The date \<^verbatim>\<open>sevenDaysAgo\<close> of lines
  27-28 is used by no later line and is left out. A query that throws ends the block at
  once; the second query is sent even when the first one reported an error.
\<close>

definition try_block :: "env \<Rightarrow> world \<Rightarrow> world" where
  "try_block e w =
     (case run_query (fetch1 e) (preschoolsWithoutData_query (the_store e)) of
        Rejected m \<Rightarrow> emit (Select WithoutData) w
      | Resolved r1 \<Rightarrow>
         (case run_query (fetch2 e) (preschoolsWithOldData_query (the_store e)) of
            Rejected m \<Rightarrow> emit (Select WithOldData) (emit (Select WithoutData) w)
          | Resolved r2 \<Rightarrow>
             (let w' = emit (Select WithOldData) (emit (Select WithoutData) w) in
              if truthy (error r1) \<or> truthy (error r2) then w'
              else
                let preschoolsToEnrich = or_empty (data r1) @ or_empty (data r2) in
                batch_loop e preschoolsToEnrich 0
                  (setProgress (\<lambda>prev. prev\<lparr>total := length preschoolsToEnrich\<rparr>) w'))))"

text \<open>
  \<^verbatim>\<open>enrichMissingData\<close> (lines 19-118). The guard of line 20 reads \<open>progress.isRunning\<close>
  of the render that built the callback (lines 12, 19 and the dependency list of line
  118): this is \<open>captured\<close>. The updaters of \<^verbatim>\<open>setProgress\<close> act on the current state
  \<open>prev\<close>: this is \<open>progress\<close>. The two agree, \<open>captured = isRunning progress\<close>, when the
  callback called is the one of the render that shows the current state; a callback kept
  from an earlier render carries the flag of that render. The result is the final progress
  state and the events of the call.
\<close>

definition enrichMissingData :: "env \<Rightarrow> bool \<Rightarrow> EnrichmentProgress \<Rightarrow> world" where
  "enrichMissingData e captured progress =
     (if captured then (progress, [])
      else
        setProgress (\<lambda>prev. prev\<lparr>isRunning := False\<rparr>)
          (try_block e
            (setProgress (\<lambda>prev. prev\<lparr>isRunning := True, processed := 0, errors := 0\<rparr>)
              (progress, []))))"

section \<open>getEnrichmentStats\<close>

text \<open>
  A JavaScript number is an IEEE 754 binary64 value. The numbers of \<^verbatim>\<open>getEnrichmentStats\<close>
  are nonnegative and far from the ends of the exponent range, so a number is modelled by
  the rational it denotes, and an arithmetic operation by the exact operation followed by
  rounding to the nearest value with a 53-bit significand, ties to the even significand.
  \<open>ilog2 x\<close> is the binary exponent of a positive \<open>x\<close>, that is \<open>\<lfloor>log\<^sub>2 x\<rfloor>\<close>.
\<close>

definition round_half_even :: "rat \<Rightarrow> int" where
  "round_half_even x =
     (let n = \<lfloor>x\<rfloor>; r = x - of_int n in
      if r < 1 / 2 then n else if 1 / 2 < r then n + 1 else if even n then n else n + 1)"

definition ilog2 :: "rat \<Rightarrow> int" where
  "ilog2 x = (if 1 \<le> x then bitlen \<lfloor>x\<rfloor> - 1 else - bitlen (\<lceil>1 / x\<rceil> - 1))"

definition to_double :: "rat \<Rightarrow> rat" where
  "to_double x =
     (if x = 0 then 0
      else let k = ilog2 x - 52 in of_int (round_half_even (x / 2 powi k)) * 2 powi k)"

definition js_div :: "rat \<Rightarrow> rat \<Rightarrow> rat" where
  "js_div a b = to_double (a / b)"

definition js_mul :: "rat \<Rightarrow> rat \<Rightarrow> rat" where
  "js_mul a b = to_double (a * b)"

text \<open>\<^verbatim>\<open>Math.round\<close>: the nearest integer, a tie going up.\<close>

definition Math_round :: "rat \<Rightarrow> int" where
  "Math_round x = \<lfloor>x + 1 / 2\<rfloor>"

text \<open>The result \<^verbatim>\<open>{total, enriched, percentage}\<close>; \<open>stats_total\<close> is its field \<^verbatim>\<open>total\<close>.\<close>

record EnrichmentStats =
  stats_total :: nat
  enriched :: nat
  percentage :: int

definition zero_stats :: EnrichmentStats where
  "zero_stats = \<lparr>stats_total = 0, enriched = 0, percentage = 0\<rparr>"

text \<open>
  \<^verbatim>\<open>getEnrichmentStats\<close> (lines 120-141) on a store, given how each of its two queries
  settles. Only \<^verbatim>\<open>data\<close> is read from a response; a rejected query is caught by the
  \<^verbatim>\<open>catch\<close> block. An array length is below \<open>2 ^ 32\<close> and so is a number exactly.
\<close>

definition getEnrichmentStats :: "store \<Rightarrow> fault \<Rightarrow> fault \<Rightarrow> EnrichmentStats" where
  "getEnrichmentStats st f1 f2 =
     (case run_query f1 (totalPreschools_query st) of
        Rejected m \<Rightarrow> zero_stats
      | Resolved r1 \<Rightarrow>
         (case run_query f2 (enrichedPreschools_query st) of
            Rejected m \<Rightarrow> zero_stats
          | Resolved r2 \<Rightarrow>
             \<lparr>stats_total = length_or_0 (data r1),
              enriched = length_or_0 (data r2),
              percentage =
                (if 0 < length_or_0 (data r1)
                 then Math_round
                        (js_mul (js_div (of_nat (length_or_0 (data r2)))
                                        (of_nat (length_or_0 (data r1)))) 100)
                 else 0)\<rparr>))"

section \<open>Vocabulary of the properties\<close>

text \<open>Projections of the events of a run.\<close>

fun observed :: "event list \<Rightarrow> EnrichmentProgress list" where
  "observed [] = []"
| "observed (SetProgress p # evs) = p # observed evs"
| "observed (ev # evs) = observed evs"

fun dispatched :: "event list \<Rightarrow> row list list" where
  "dispatched [] = []"
| "dispatched (Dispatch b # evs) = b # dispatched evs"
| "dispatched (ev # evs) = dispatched evs"

fun delays :: "event list \<Rightarrow> nat list" where
  "delays [] = []"
| "delays (Delay d # evs) = d # delays evs"
| "delays (ev # evs) = delays evs"

fun is_sched :: "event \<Rightarrow> bool" where
  "is_sched (Dispatch b) = True"
| "is_sched (Delay d) = True"
| "is_sched ev = False"

definition schedule :: "event list \<Rightarrow> event list" where
  "schedule evs = filter is_sched evs"

text \<open>The candidates a run fetches, and whether the call at a position fails.\<close>

definition fetched_candidates :: "store \<Rightarrow> row list" where
  "fetched_candidates st = preschoolsWithoutData_query st @ preschoolsWithOldData_query st"



text \<open>What every progress state of a run satisfies.\<close>

definition within_bounds :: "EnrichmentProgress \<Rightarrow> bool" where
  "within_bounds p = (processed p \<le> total p \<and> errors p \<le> processed p + 1)"

definition eligible_count :: "store \<Rightarrow> nat" where
  "eligible_count st = length (totalPreschools_query st)"

definition enriched_count :: "store \<Rightarrow> nat" where
  "enriched_count st = length (enrichedPreschools_query st)"

text \<open>
  The spec's partition of a list into consecutive batches of a fixed size, and a list
  with a separator between each two neighbours.
\<close>

function spec_batches :: "nat \<Rightarrow> 'a list \<Rightarrow> 'a list list" where
  "spec_batches n xs =
     (if n = 0 \<or> xs = [] then [] else take n xs # spec_batches n (drop n xs))"
  by pat_completeness auto
termination
  by (relation "measure (\<lambda>(n, xs). length xs)") auto

declare spec_batches.simps [simp del]

fun intersperse :: "'a \<Rightarrow> 'a list \<Rightarrow> 'a list" where
  "intersperse s [] = []"
| "intersperse s [x] = [x]"
| "intersperse s (x # y # ys) = x # s # intersperse s (y # ys)"

text \<open>
  The spec's two candidate sets: located records without enrichment data, and located
  records whose stored enrichment timestamp is more than seven days before \<open>now\<close>.
\<close>

definition located :: "row \<Rightarrow> bool" where
  "located r = (Latitud r \<noteq> None \<and> Longitud r \<noteq> None)"

definition has_enrichment :: "store \<Rightarrow> row \<Rightarrow> bool" where
  "has_enrichment st r = (row_id r \<in> preschool_id ` set (preschool_google_data st))"

definition seven_days :: int where
  "seven_days = 7 * 24 * 60 * 60 * 1000"

definition is_stale :: "int \<Rightarrow> store \<Rightarrow> row \<Rightarrow> bool" where
  "is_stale now st r =
     list_ex (\<lambda>g. preschool_id g = row_id r \<and> updated_at g < now - seven_days)
             (preschool_google_data st)"

definition spec_missing_candidates :: "store \<Rightarrow> row list" where
  "spec_missing_candidates st =
     filter (\<lambda>r. located r \<and> \<not> has_enrichment st r) (Forskolor st)"

definition spec_stale_candidates :: "int \<Rightarrow> store \<Rightarrow> row list" where
  "spec_stale_candidates now st = filter (\<lambda>r. located r \<and> is_stale now st r) (Forskolor st)"

section \<open>Concrete stores and surroundings\<close>

definition sample_row :: "nat \<Rightarrow> row" where
  "sample_row i = \<lparr>row_id = i, Namn = ''Forskolan'', Adress = ''Storgatan 1'',
                   Latitud = Some 59, Longitud = Some 18\<rparr>"

definition unlocated_row :: row where
  "unlocated_row = \<lparr>row_id = 1000, Namn = ''Utan plats'', Adress = '''',
                    Latitud = None, Longitud = None\<rparr>"

definition enrichment_at :: "int \<Rightarrow> nat \<Rightarrow> google_data" where
  "enrichment_at ts i = \<lparr>preschool_id = i, updated_at = ts\<rparr>"

text \<open>A store with \<open>t\<close> located preschools, \<open>n\<close> of them enriched at time 0, and one
  preschool without coordinates.\<close>

definition store_of :: "nat \<Rightarrow> nat \<Rightarrow> store" where
  "store_of t n =
     \<lparr>Forskolor = unlocated_row # map sample_row [0 ..< t],
      preschool_google_data = map (enrichment_at 0) [0 ..< n]\<rparr>"

definition seven_env :: env where
  "seven_env =
     \<lparr>the_store = store_of 7 0, fetch1 = NoFault, fetch2 = NoFault,
      invoke_result = (\<lambda>k. if k = 1 then ReportsError ''quota''
                            else if k = 5 then Throws ''network'' else NoFault),
      completion_order = rev\<rparr>"

definition failing_env :: env where
  "failing_env = seven_env\<lparr>fetch2 := ReportsError ''timeout''\<rparr>"

definition reported_env :: env where
  "reported_env =
     \<lparr>the_store = store_of 1 0, fetch1 = NoFault, fetch2 = NoFault,
      invoke_result = (\<lambda>k. ReportsError ''quota''),
      completion_order = (\<lambda>ks. ks)\<rparr>"

definition idle :: EnrichmentProgress where
  "idle = \<lparr>total = 0, processed = 0, errors = 0, isRunning = False\<rparr>"

definition earlier :: EnrichmentProgress where
  "earlier = \<lparr>total = 7, processed = 7, errors = 2, isRunning = False\<rparr>"

definition busy :: EnrichmentProgress where
  "busy = \<lparr>total = 7, processed = 4, errors = 1, isRunning = True\<rparr>"

definition one_env :: env where
  "one_env =
     \<lparr>the_store = store_of 1 0, fetch1 = NoFault, fetch2 = NoFault,
      invoke_result = (\<lambda>k. NoFault), completion_order = (\<lambda>ks. ks)\<rparr>"

definition eight_days_later :: int where
  "eight_days_later = 8 * 24 * 60 * 60 * 1000"

section \<open>Progress accounting of a run\<close>

lemma fst_emit [simp]: "fst (emit ev w) = fst w"
  by (simp add: emit_def)

lemma snd_emit [simp]: "snd (emit ev w) = snd w @ [ev]"
  by (simp add: emit_def)

lemma fst_setProgress [simp]: "fst (setProgress f w) = f (fst w)"
  by (simp add: setProgress_def)

lemma snd_setProgress [simp]: "snd (setProgress f w) = snd w @ [SetProgress (f (fst w))]"
  by (simp add: setProgress_def)

lemma observed_append [simp]: "observed (xs @ ys) = observed xs @ observed ys"
  by (induction xs rule: observed.induct) simp_all

lemma dispatched_append [simp]: "dispatched (xs @ ys) = dispatched xs @ dispatched ys"
  by (induction xs rule: dispatched.induct) simp_all

lemma delays_append [simp]: "delays (xs @ ys) = delays xs @ delays ys"
  by (induction xs rule: delays.induct) simp_all

lemma schedule_append [simp]: "schedule (xs @ ys) = schedule xs @ schedule ys"
  by (simp add: schedule_def)






lemma length_slice: "length (slice xs i (i + n)) = min n (length xs - i)"
  by (simp add: slice_def)


lemma try_block_ok:
  assumes "fetch1 e = NoFault" and "fetch2 e = NoFault"
  shows "try_block e w =
     batch_loop e (fetched_candidates (the_store e)) 0
       (setProgress (\<lambda>prev. prev\<lparr>total := length (fetched_candidates (the_store e))\<rparr>)
         (emit (Select WithOldData) (emit (Select WithoutData) w)))"
  using assms
  by (simp add: try_block_def run_query_def or_empty_def truthy_def
        fetched_candidates_def Let_def)

lemma try_block_abort:
  assumes "fetch1 e \<noteq> NoFault \<or> fetch2 e \<noteq> NoFault"
  shows "fst (try_block e w) = fst w"
    and "observed (snd (try_block e w)) = observed (snd w)"
    and "dispatched (snd (try_block e w)) = dispatched (snd w)"
    and "delays (snd (try_block e w)) = delays (snd w)"
  using assms
  by (cases "fetch1 e"; cases "fetch2 e";
      simp add: try_block_def run_query_def truthy_def Let_def)+



section \<open>Re-entry\<close>

text \<open>
  C3 (as amended): A call of \<^verbatim>\<open>enrichMissingData\<close> is a no-op (it returns the progress
  state it was called in and has no event at all: no store query, no enrichment
  invocation, no progress update) exactly when the flag captured by the callback is set,
  whatever the flag of the current state. So a call through the callback of the render
  that shows a state with the flag set is a no-op.
\<close>

theorem noop_exactly_when_captured_flag_set:
  "((enrichMissingData e captured progress = (progress, [])) = captured)
   \<and> (isRunning progress \<longrightarrow>
        enrichMissingData e (isRunning progress) progress = (progress, []))"
proof -
  have "snd (enrichMissingData e False progress) \<noteq> []"
    by (simp add: enrichMissingData_def)
  then have "enrichMissingData e False progress \<noteq> (progress, [])"
    by (metis snd_conv)
  moreover have "enrichMissingData e True progress = (progress, [])"
    by (simp add: enrichMissingData_def)
  ultimately have "(enrichMissingData e captured progress = (progress, [])) = captured"
    by (cases captured) simp_all
  moreover have "enrichMissingData e (isRunning progress) progress = (progress, [])"
    if "isRunning progress"
    using that by (simp add: enrichMissingData_def)
  ultimately show ?thesis by blast
qed

theorem noop_exactly_when_captured_flag_set_witness:
  "isRunning busy
   \<and> enrichMissingData seven_env (isRunning busy) busy = (busy, [])
   \<and> enrichMissingData seven_env True idle = (idle, [])"
proof -
  have 1: "isRunning busy" by (simp add: busy_def)
  have 2: "enrichMissingData seven_env (isRunning busy) busy = (busy, [])"
    using noop_exactly_when_captured_flag_set [of seven_env True busy] 1 by blast
  have 3: "enrichMissingData seven_env True idle = (idle, [])"
    using noop_exactly_when_captured_flag_set [of seven_env True idle] by blast
  show ?thesis using 1 2 3 by blast
qed

text \<open>
  A callback built while the flag was not set, called in a state whose flag is set: the
  call resets the counters, sends both queries, dispatches the enrichment call for the
  one candidate and clears the flag.
\<close>

theorem stale_callback_runs_while_flag_set:
  "isRunning busy
   \<and> enrichMissingData one_env False busy =
       (\<lparr>total = 1, processed = 1, errors = 0, isRunning = False\<rparr>,
        [SetProgress \<lparr>total = 7, processed = 0, errors = 0, isRunning = True\<rparr>,
         Select WithoutData, Select WithOldData,
         SetProgress \<lparr>total = 1, processed = 0, errors = 0, isRunning = True\<rparr>,
         Dispatch [sample_row 0],
         SetProgress \<lparr>total = 1, processed = 1, errors = 0, isRunning = True\<rparr>,
         SetProgress \<lparr>total = 1, processed = 1, errors = 0, isRunning = False\<rparr>])"
  by code_simp

section \<open>Fetch failures\<close>

text \<open>
  C4: A run that starts ends with the running flag cleared, however it goes. If one of
  the two candidate queries fails (it reports an error or it throws), the run dispatches
  no enrichment call at all, and \<open>processed\<close> and \<open>errors\<close> are 0 in both progress
  states the run produces and in its final state.
\<close>

theorem fetch_failure_aborts:
  assumes "\<not> isRunning progress"
  shows "\<not> isRunning (fst (enrichMissingData e (isRunning progress) progress))
     \<and> (fetch1 e \<noteq> NoFault \<or> fetch2 e \<noteq> NoFault \<longrightarrow>
          processed (fst (enrichMissingData e (isRunning progress) progress)) = 0
        \<and> errors (fst (enrichMissingData e (isRunning progress) progress)) = 0
        \<and> dispatched (snd (enrichMissingData e (isRunning progress) progress)) = []
        \<and> map processed (observed (snd (enrichMissingData e (isRunning progress) progress))) = [0, 0]
        \<and> map errors (observed (snd (enrichMissingData e (isRunning progress) progress))) = [0, 0])"
proof -
  have "\<not> isRunning (fst (enrichMissingData e (isRunning progress) progress))"
    using assms by (simp add: enrichMissingData_def)
  moreover have "processed (fst (enrichMissingData e (isRunning progress) progress)) = 0
        \<and> errors (fst (enrichMissingData e (isRunning progress) progress)) = 0
        \<and> dispatched (snd (enrichMissingData e (isRunning progress) progress)) = []
        \<and> map processed (observed (snd (enrichMissingData e (isRunning progress) progress))) = [0, 0]
        \<and> map errors (observed (snd (enrichMissingData e (isRunning progress) progress))) = [0, 0]"
    if "fetch1 e \<noteq> NoFault \<or> fetch2 e \<noteq> NoFault"
    using assms by (simp add: enrichMissingData_def try_block_abort [OF that])
  ultimately show ?thesis by blast
qed

theorem fetch_failure_aborts_witness:
  "\<not> isRunning earlier
   \<and> fetch2 failing_env = ReportsError ''timeout''
   \<and> processed (fst (enrichMissingData failing_env (isRunning earlier) earlier)) = 0
   \<and> errors (fst (enrichMissingData failing_env (isRunning earlier) earlier)) = 0
   \<and> \<not> isRunning (fst (enrichMissingData failing_env (isRunning earlier) earlier))
   \<and> dispatched (snd (enrichMissingData failing_env (isRunning earlier) earlier)) = []"
proof -
  have 1: "\<not> isRunning earlier" by (simp add: earlier_def)
  have 2: "fetch1 failing_env \<noteq> NoFault \<or> fetch2 failing_env \<noteq> NoFault"
    by (simp add: failing_env_def)
  have 3: "fetch2 failing_env = ReportsError ''timeout''"
    by (simp add: failing_env_def)
  show ?thesis using fetch_failure_aborts [OF 1, of failing_env] 1 2 3 by blast
qed

text \<open>
  C10: When a run that starts aborts because a candidate query fails, its final state is
  the state before the run with \<open>processed\<close> and \<open>errors\<close> reset to 0 and the flag
  cleared: \<open>total\<close> keeps the value it had before the run, the candidate count of an
  earlier run.
\<close>

theorem fetch_failure_keeps_total:
  assumes "\<not> isRunning progress"
    and "fetch1 e \<noteq> NoFault \<or> fetch2 e \<noteq> NoFault"
  shows "fst (enrichMissingData e (isRunning progress) progress)
           = progress\<lparr>processed := 0, errors := 0, isRunning := False\<rparr>"
  using assms(1)
  by (cases progress) (simp add: enrichMissingData_def try_block_abort [OF assms(2)])

theorem fetch_failure_keeps_total_witness:
  "\<not> isRunning earlier
   \<and> fetch2 failing_env = ReportsError ''timeout''
   \<and> fst (enrichMissingData failing_env (isRunning earlier) earlier)
       = \<lparr>total = 7, processed = 0, errors = 0, isRunning = False\<rparr>"
proof -
  have 1: "\<not> isRunning earlier" by (simp add: earlier_def)
  have 2: "fetch1 failing_env \<noteq> NoFault \<or> fetch2 failing_env \<noteq> NoFault"
    by (simp add: failing_env_def)
  have 3: "fetch2 failing_env = ReportsError ''timeout''"
    by (simp add: failing_env_def)
  show ?thesis using fetch_failure_keeps_total [OF 1 2] 1 3 by (simp add: earlier_def)
qed

section \<open>Batches and pauses\<close>

lemma schedule_settle_one: "schedule (snd (settle_one f w)) = schedule (snd w)"
  by (cases f) (simp_all add: settle_one_def schedule_def)

lemma schedule_fold_settle:
  "schedule (snd (fold (\<lambda>k. settle_one (g k)) ks w)) = schedule (snd w)"
  by (induction ks arbitrary: w) (simp_all add: schedule_settle_one)

lemma schedule_run_batch:
  "schedule (snd (run_batch e i b w)) = schedule (snd w) @ [Dispatch b]"
  by (simp add: run_batch_def schedule_fold_settle) (simp add: schedule_def)

lemma spec_batches_Nil [simp]: "spec_batches n [] = []"
  by (simp add: spec_batches.simps)

lemma spec_batches_nonempty: "0 < n \<Longrightarrow> xs \<noteq> [] \<Longrightarrow> spec_batches n xs \<noteq> []"
  by (subst spec_batches.simps) simp

lemma intersperse_Cons: "xs \<noteq> [] \<Longrightarrow> intersperse s (x # xs) = x # s # intersperse s xs"
  by (cases xs) simp_all

text \<open>The loop dispatches the spec's batches of the candidates from position \<open>i\<close> on,
  with one pause of 2000 between each two of them.\<close>

lemma schedule_batch_loop:
  "schedule (snd (batch_loop e ps i w))
     = schedule (snd w)
       @ intersperse (Delay 2000) (map Dispatch (spec_batches batchSize (drop i ps)))"
proof (induction e ps i w rule: batch_loop.induct)
  case (1 e ps i w)
  show ?case
  proof (cases "i < length ps")
    case False
    then show ?thesis by (simp add: batch_loop.simps)
  next
    case True
    define batch where "batch = slice ps i (i + batchSize)"
    define w1 where "w1 = run_batch e i batch w"
    define w2 where "w2 = (if i + batchSize < length ps then emit (Delay 2000) w1 else w1)"
    define rest where "rest = spec_batches batchSize (drop (i + batchSize) ps)"
    have unfold: "batch_loop e ps i w = batch_loop e ps (i + batchSize) w2"
      using True by (subst batch_loop.simps) (simp add: batch_def w1_def w2_def Let_def)
    have ih: "schedule (snd (batch_loop e ps (i + batchSize) w2))
        = schedule (snd w2) @ intersperse (Delay 2000) (map Dispatch rest)"
      unfolding rest_def using "1.IH" [OF True batch_def w1_def w2_def] .
    have sb: "spec_batches batchSize (drop i ps) = batch # rest"
      using True
      by (subst spec_batches.simps)
         (simp add: batch_def rest_def slice_def batchSize_def add.commute)
    show ?thesis
    proof (cases "i + batchSize < length ps")
      case True
      then have "rest \<noteq> []"
        unfolding rest_def by (intro spec_batches_nonempty) (simp_all add: batchSize_def)
      then have "intersperse (Delay 2000) (map Dispatch (batch # rest))
                 = Dispatch batch # Delay 2000 # intersperse (Delay 2000) (map Dispatch rest)"
        by (simp add: intersperse_Cons)
      moreover have "schedule (snd w2) = schedule (snd w) @ [Dispatch batch, Delay 2000]"
        using True by (simp add: w2_def w1_def schedule_run_batch) (simp add: schedule_def)
      ultimately show ?thesis unfolding unfold ih sb by simp
    next
      case False
      then have "rest = []" by (simp add: rest_def)
      moreover have "schedule (snd w2) = schedule (snd w) @ [Dispatch batch]"
        using False by (simp add: w2_def w1_def schedule_run_batch)
      ultimately show ?thesis unfolding unfold ih sb by simp
    qed
  qed
qed

lemma dispatched_schedule: "dispatched (schedule evs) = dispatched evs"
  unfolding schedule_def by (induction evs rule: dispatched.induct) simp_all

lemma delays_schedule: "delays (schedule evs) = delays evs"
  unfolding schedule_def by (induction evs rule: delays.induct) simp_all

lemma dispatched_intersperse:
  "dispatched (intersperse (Delay d) (map Dispatch bs)) = bs"
  by (induction bs rule: induct_list012) simp_all

lemma delays_intersperse:
  "delays (intersperse (Delay d) (map Dispatch bs)) = replicate (length bs - 1) d"
  by (induction bs rule: induct_list012) simp_all

lemma concat_spec_batches: "0 < n \<Longrightarrow> concat (spec_batches n xs) = xs"
proof (induction n xs rule: spec_batches.induct)
  case (1 n xs)
  then show ?case by (subst spec_batches.simps) simp
qed

lemma spec_batches_7:
  assumes "length xs = 7"
  shows "map length (spec_batches 3 xs) = [3, 3, 1]"
proof -
  have "xs \<noteq> []" "drop 3 xs \<noteq> []" "drop 6 xs \<noteq> []"  "drop 9 xs = []"
    using assms by auto
  then show ?thesis using assms
    by (simp add: spec_batches.simps [of 3 xs] spec_batches.simps [of 3 "drop 3 xs"]
          spec_batches.simps [of 3 "drop 6 xs"])
qed

text \<open>
  C5: In a run that starts and whose fetches succeed, the dispatches and pauses of the
  run are, in order, the consecutive batches of size 3 of the fetched candidates (the
  last one holding the remainder) with one pause of 2000 between each two neighbouring
  batches and none after the last. The batches concatenate to the candidate list. With
  7 fetched candidates the batch sizes are 3, 3, 1 and there are exactly two pauses.
\<close>

theorem batches_of_three_with_delays:
  assumes "\<not> isRunning progress"
    and "fetch1 e = NoFault" and "fetch2 e = NoFault"
  shows "schedule (snd (enrichMissingData e (isRunning progress) progress))
           = intersperse (Delay 2000)
               (map Dispatch (spec_batches 3 (fetched_candidates (the_store e))))
     \<and> dispatched (snd (enrichMissingData e (isRunning progress) progress))
           = spec_batches 3 (fetched_candidates (the_store e))
     \<and> concat (dispatched (snd (enrichMissingData e (isRunning progress) progress)))
           = fetched_candidates (the_store e)
     \<and> delays (snd (enrichMissingData e (isRunning progress) progress))
           = replicate (length (spec_batches 3 (fetched_candidates (the_store e))) - 1) 2000
     \<and> (length (fetched_candidates (the_store e)) = 7 \<longrightarrow>
          map length (dispatched (snd (enrichMissingData e (isRunning progress) progress))) = [3, 3, 1]
          \<and> delays (snd (enrichMissingData e (isRunning progress) progress)) = [2000, 2000])"
proof -
  let ?ps = "fetched_candidates (the_store e)"
  let ?tr = "snd (enrichMissingData e (isRunning progress) progress)"
  have s: "schedule ?tr = intersperse (Delay 2000) (map Dispatch (spec_batches 3 ?ps))"
    using assms(1)
    by (simp add: enrichMissingData_def try_block_ok [OF assms(2,3)] schedule_batch_loop)
       (simp add: schedule_def batchSize_def)
  have d: "dispatched ?tr = spec_batches 3 ?ps"
    using dispatched_schedule [of ?tr] by (simp add: s dispatched_intersperse)
  have l: "delays ?tr = replicate (length (spec_batches 3 ?ps) - 1) 2000"
    using delays_schedule [of ?tr] by (simp add: s delays_intersperse)
  have c: "concat (dispatched ?tr) = ?ps"
    by (simp add: d concat_spec_batches)
  have seven: "map length (dispatched ?tr) = [3, 3, 1] \<and> delays ?tr = [2000, 2000]"
    if "length ?ps = 7"
  proof -
    have m: "map length (spec_batches 3 ?ps) = [3, 3, 1]" by (rule spec_batches_7 [OF that])
    then have "length (spec_batches 3 ?ps) = 3"
      by (metis length_map length_Cons list.size(3) numeral_3_eq_3)
    then show ?thesis using m by (simp add: d l numeral_3_eq_3 numeral_2_eq_2)
  qed
  show ?thesis using s d l c seven by blast
qed

theorem batches_of_three_with_delays_witness:
  "\<not> isRunning idle \<and> fetch1 seven_env = NoFault \<and> fetch2 seven_env = NoFault
   \<and> length (fetched_candidates (the_store seven_env)) = 7
   \<and> map length (dispatched (snd (enrichMissingData seven_env (isRunning idle) idle))) = [3, 3, 1]
   \<and> delays (snd (enrichMissingData seven_env (isRunning idle) idle)) = [2000, 2000]"
proof -
  have 1: "\<not> isRunning idle" by (simp add: idle_def)
  have 2: "fetch1 seven_env = NoFault" and 3: "fetch2 seven_env = NoFault"
    by (simp_all add: seven_env_def)
  have n: "length (fetched_candidates (the_store seven_env)) = 7" by code_simp
  show ?thesis using batches_of_three_with_delays [OF 1 2 3] 1 2 3 n by blast
qed

section \<open>The progress states a run shows\<close>

text \<open>
  In every progress state of a run whose batches complete in some order, \<open>processed\<close>
  is at most \<open>total\<close>, and \<open>errors\<close> exceeds \<open>processed\<close> by at most one.
\<close>

lemma settle_one_bounds:
  assumes "list_all within_bounds (observed (snd w))"
    and "processed (fst w) < total (fst w)" and "errors (fst w) \<le> processed (fst w)"
  shows "list_all within_bounds (observed (snd (settle_one f w)))"
    and "errors (fst (settle_one f w)) \<le> processed (fst (settle_one f w))"
    and "processed (fst (settle_one f w)) = processed (fst w) + 1"
    and "total (fst (settle_one f w)) = total (fst w)"
  using assms by (cases f; simp add: settle_one_def within_bounds_def)+

lemma fold_settle_bounds:
  assumes "list_all within_bounds (observed (snd w))"
    and "processed (fst w) + length ks \<le> total (fst w)"
    and "errors (fst w) \<le> processed (fst w)"
  shows "list_all within_bounds (observed (snd (fold (\<lambda>k. settle_one (g k)) ks w)))
       \<and> errors (fst (fold (\<lambda>k. settle_one (g k)) ks w))
            \<le> processed (fst (fold (\<lambda>k. settle_one (g k)) ks w))
       \<and> processed (fst (fold (\<lambda>k. settle_one (g k)) ks w)) = processed (fst w) + length ks
       \<and> total (fst (fold (\<lambda>k. settle_one (g k)) ks w)) = total (fst w)"
  using assms
proof (induction ks arbitrary: w)
  case Nil
  then show ?case by simp
next
  case (Cons k ks)
  have lt: "processed (fst w) < total (fst w)" using Cons.prems(2) by simp
  note s = settle_one_bounds [OF Cons.prems(1) lt Cons.prems(3), of "g k"]
  have "processed (fst (settle_one (g k) w)) + length ks \<le> total (fst (settle_one (g k) w))"
    using Cons.prems(2) by (simp add: s(3,4))
  from Cons.IH [OF s(1) this s(2)] show ?case by (simp add: s(3,4))
qed

lemma run_batch_bounds:
  assumes fair: "mset (completion_order e [i ..< i + length b]) = mset [i ..< i + length b]"
    and "list_all within_bounds (observed (snd w))"
    and "processed (fst w) + length b \<le> total (fst w)"
    and "errors (fst w) \<le> processed (fst w)"
  shows "list_all within_bounds (observed (snd (run_batch e i b w)))
       \<and> errors (fst (run_batch e i b w)) \<le> processed (fst (run_batch e i b w))
       \<and> processed (fst (run_batch e i b w)) = processed (fst w) + length b
       \<and> total (fst (run_batch e i b w)) = total (fst w)"
proof -
  let ?ks = "completion_order e [i ..< i + length b]"
  let ?w = "emit (Dispatch b) w"
  have len: "length ?ks = length b" using mset_eq_length [OF fair] by simp
  have "list_all within_bounds (observed (snd ?w))" using assms(2) by simp
  moreover have "processed (fst ?w) + length ?ks \<le> total (fst ?w)" using assms(3) len by simp
  moreover have "errors (fst ?w) \<le> processed (fst ?w)" using assms(4) by simp
  ultimately show ?thesis
    unfolding run_batch_def using fold_settle_bounds [of ?w ?ks "invoke_result e"] len by simp
qed

lemma batch_loop_bounds:
  assumes "\<And>ks. mset (completion_order e ks) = mset ks"
    and "list_all within_bounds (observed (snd w))"
    and "processed (fst w) + (length ps - i) \<le> total (fst w)"
    and "errors (fst w) \<le> processed (fst w)"
  shows "list_all within_bounds (observed (snd (batch_loop e ps i w)))
       \<and> errors (fst (batch_loop e ps i w)) \<le> processed (fst (batch_loop e ps i w))
       \<and> processed (fst (batch_loop e ps i w)) \<le> total (fst (batch_loop e ps i w))"
  using assms
proof (induction e ps i w rule: batch_loop.induct)
  case (1 e ps i w)
  show ?case
  proof (cases "i < length ps")
    case False
    then show ?thesis using "1.prems" by (simp add: batch_loop.simps)
  next
    case True
    define batch where "batch = slice ps i (i + batchSize)"
    define w1 where "w1 = run_batch e i batch w"
    define w2 where "w2 = (if i + batchSize < length ps then emit (Delay 2000) w1 else w1)"
    have len: "length batch = min 3 (length ps - i)"
      by (simp add: batch_def length_slice batchSize_def)
    have unfold: "batch_loop e ps i w = batch_loop e ps (i + batchSize) w2"
      using True by (subst batch_loop.simps) (simp add: batch_def w1_def w2_def Let_def)
    have "processed (fst w) + length batch \<le> total (fst w)"
      using "1.prems"(3) len by simp
    from run_batch_bounds [OF "1.prems"(1) "1.prems"(2) this "1.prems"(4), of i]
    have b: "list_all within_bounds (observed (snd w1))"
      "errors (fst w1) \<le> processed (fst w1)"
      "processed (fst w1) = processed (fst w) + length batch"
      "total (fst w1) = total (fst w)"
      by (simp_all add: w1_def)
    have 2: "list_all within_bounds (observed (snd w2))" using b(1) by (simp add: w2_def)
    have 3: "processed (fst w2) + (length ps - (i + batchSize)) \<le> total (fst w2)"
      using "1.prems"(3) True by (simp add: w2_def b(3,4) len batchSize_def)
    have 4: "errors (fst w2) \<le> processed (fst w2)" using b(2) by (simp add: w2_def)
    show ?thesis
      unfolding unfold
      using "1.IH" [OF True batch_def w1_def w2_def "1.prems"(1) 2 3 4] .
  qed
qed

lemma try_block_bounds:
  assumes "\<And>ks. mset (completion_order e ks) = mset ks"
    and "list_all within_bounds (observed (snd w))"
    and "processed (fst w) = 0" and "errors (fst w) = 0"
  shows "list_all within_bounds (observed (snd (try_block e w)))
       \<and> errors (fst (try_block e w)) \<le> processed (fst (try_block e w))
       \<and> processed (fst (try_block e w)) \<le> total (fst (try_block e w))"
proof (cases "fetch1 e = NoFault \<and> fetch2 e = NoFault")
  case True
  let ?N = "length (fetched_candidates (the_store e))"
  let ?w = "setProgress (\<lambda>prev. prev\<lparr>total := ?N\<rparr>)
         (emit (Select WithOldData) (emit (Select WithoutData) w))"
  have 1: "list_all within_bounds (observed (snd ?w))"
    using assms(2,3,4) by (simp add: within_bounds_def)
  have 2: "processed (fst ?w) + (?N - 0) \<le> total (fst ?w)" using assms(3) by simp
  have 3: "errors (fst ?w) \<le> processed (fst ?w)" using assms(3,4) by simp
  show ?thesis
    using batch_loop_bounds [OF assms(1) 1 2 3] True by (simp add: try_block_ok)
next
  case False
  then have "fetch1 e \<noteq> NoFault \<or> fetch2 e \<noteq> NoFault" by simp
  then show ?thesis using assms(2,3,4) by (simp add: try_block_abort)
qed

lemma observed_states_within_bounds:
  assumes "\<not> isRunning progress"
    and "\<And>ks. mset (completion_order e ks) = mset ks"
  shows "list_all within_bounds (observed (snd (enrichMissingData e (isRunning progress) progress)))"
proof -
  let ?w = "setProgress (\<lambda>prev. prev\<lparr>isRunning := True, processed := 0, errors := 0\<rparr>)
              (progress, [])"
  have "list_all within_bounds (observed (snd ?w))" by (simp add: within_bounds_def)
  from try_block_bounds [OF assms(2) this]
  have "list_all within_bounds (observed (snd (try_block e ?w)))
       \<and> errors (fst (try_block e ?w)) \<le> processed (fst (try_block e ?w))
       \<and> processed (fst (try_block e ?w)) \<le> total (fst (try_block e ?w))" by simp
  then show ?thesis using assms(1) by (simp add: enrichMissingData_def within_bounds_def)
qed

text \<open>
  C1: The progress states produced by a run over one candidate whose enrichment call
  reports an error, from the idle state. The third state, after the update of \<open>errors\<close>
  and before the update of \<open>processed\<close>, has \<open>errors = 1\<close> and \<open>processed = 0\<close>.
\<close>

theorem errors_exceed_processed_between_updates:
  "observed (snd (enrichMissingData reported_env (isRunning idle) idle)) =
     [\<lparr>total = 0, processed = 0, errors = 0, isRunning = True\<rparr>,
      \<lparr>total = 1, processed = 0, errors = 0, isRunning = True\<rparr>,
      \<lparr>total = 1, processed = 0, errors = 1, isRunning = True\<rparr>,
      \<lparr>total = 1, processed = 1, errors = 1, isRunning = True\<rparr>,
      \<lparr>total = 1, processed = 1, errors = 1, isRunning = False\<rparr>]"
  by code_simp

section \<open>The candidate queries\<close>

lemma preschoolsWithOldData_query_empty: "preschoolsWithOldData_query st = []"
  by (simp add: preschoolsWithOldData_query_def is_in_def limit_def)

lemma preschoolsWithoutData_query_located:
  "preschoolsWithoutData_query st = take 25 (filter located (Forskolor st))"
  by (simp add: preschoolsWithoutData_query_def not_in_def not_is_null_def limit_def
        located_def [abs_def] conj_commute)

text \<open>
  C6: In the store with one located preschool that was enriched at time 0, read eight
  days later, the spec's stale candidates are that preschool, and the second candidate
  query returns no row.
\<close>

theorem stale_query_selects_nothing:
  "spec_stale_candidates eight_days_later (store_of 1 1) = [sample_row 0]
   \<and> preschoolsWithOldData_query (store_of 1 1) = []"
  by code_simp

text \<open>
  C7: In the store with one located preschool that has enrichment data, the spec's
  candidates without enrichment data are none, and the first candidate query returns
  that preschool.
\<close>

theorem missing_query_selects_enriched:
  "has_enrichment (store_of 1 1) (sample_row 0)
   \<and> spec_missing_candidates (store_of 1 1) = []
   \<and> preschoolsWithoutData_query (store_of 1 1) = [sample_row 0]"
  by code_simp

section \<open>Rounding to binary64\<close>

text \<open>The rounding of a rational to an integer, ties to even, is off by at most a half.\<close>

lemma round_half_even_error: "\<bar>of_int (round_half_even y) - y\<bar> \<le> 1 / 2"
proof -
  have "of_int \<lfloor>y\<rfloor> \<le> y" "y < of_int \<lfloor>y\<rfloor> + 1" by linarith+
  then show ?thesis
    by (auto simp: round_half_even_def Let_def)
qed

text \<open>\<open>ilog2 x\<close> is the binary exponent of a positive \<open>x\<close>.\<close>

lemma powi_nonneg_eq: "0 \<le> k \<Longrightarrow> (2::rat) powi k = 2 ^ nat k"
  by (simp add: power_int_def)

lemma powi_neg_eq: "0 \<le> k \<Longrightarrow> (2::rat) powi (- k) = 1 / 2 ^ nat k"
  by (simp add: power_int_minus powi_nonneg_eq inverse_eq_divide)

lemma bitlen_pos:
  assumes "1 \<le> n"
  shows "1 \<le> bitlen n"
proof (rule ccontr)
  assume "\<not> 1 \<le> bitlen n"
  then have "nat (bitlen n) = 0" by simp
  moreover have "n < 2 ^ nat (bitlen n)" using bitlen_bounds [of n] assms by simp
  ultimately show False using assms by simp
qed

lemma pow2_le_of_int: "(2::int) ^ k \<le> n \<Longrightarrow> (2::rat) ^ k \<le> of_int n"
  using of_int_le_iff [of "2 ^ k" n, where ?'a = rat] by simp

lemma of_int_less_pow2: "n < (2::int) ^ k \<Longrightarrow> of_int n + 1 \<le> (2::rat) ^ k"
  using of_int_le_iff [of "n + 1" "2 ^ k", where ?'a = rat] by simp

lemma bitlen_rat_bounds:
  assumes "1 \<le> n"
  shows "(2::rat) ^ nat (bitlen n - 1) \<le> of_int n"
    and "of_int n + 1 \<le> (2::rat) ^ nat (bitlen n)"
  using bitlen_bounds [of n] assms by (simp_all add: pow2_le_of_int of_int_less_pow2)


lemma ilog2_lower:
  assumes "0 < x"
  shows "2 powi (ilog2 x) \<le> x"
proof (cases "1 \<le> x")
  case True
  define n where "n = \<lfloor>x\<rfloor>"
  have n: "1 \<le> n" using True by (simp add: n_def le_floor_iff)
  have "(2::rat) powi (bitlen n - 1) = 2 ^ nat (bitlen n - 1)"
    using bitlen_pos [OF n] by (intro powi_nonneg_eq) simp
  also have "\<dots> \<le> of_int n" by (rule bitlen_rat_bounds(1) [OF n])
  also have "\<dots> \<le> x" by (simp add: n_def)
  finally show ?thesis using True by (simp add: ilog2_def n_def)
next
  case False
  define m where "m = \<lceil>1 / x\<rceil> - 1"
  have "1 < 1 / x" using False assms by simp
  then have m: "1 \<le> m" unfolding m_def by (simp add: less_ceiling_iff)
  have "1 / x \<le> of_int m + 1" by (simp add: m_def)
  also have "\<dots> \<le> 2 ^ nat (bitlen m)" by (rule bitlen_rat_bounds(2) [OF m])
  finally have "1 / x \<le> 2 ^ nat (bitlen m)" .
  then have "1 \<le> 2 ^ nat (bitlen m) * x" using assms by (simp add: pos_divide_le_eq)
  then have "1 / 2 ^ nat (bitlen m) \<le> x" by (simp add: pos_divide_le_eq mult.commute)
  moreover have "(2::rat) powi (- bitlen m) = 1 / 2 ^ nat (bitlen m)"
    using bitlen_pos [OF m] by (intro powi_neg_eq) simp
  ultimately show ?thesis using False by (simp add: ilog2_def m_def)
qed

lemma ilog2_upper:
  assumes "0 < x"
  shows "x < 2 powi (ilog2 x + 1)"
proof (cases "1 \<le> x")
  case True
  define n where "n = \<lfloor>x\<rfloor>"
  have n: "1 \<le> n" using True by (simp add: n_def le_floor_iff)
  have "x < of_int n + 1" unfolding n_def by linarith
  also have "\<dots> \<le> 2 ^ nat (bitlen n)" by (rule bitlen_rat_bounds(2) [OF n])
  also have "\<dots> = (2::rat) powi (bitlen n)"
    using bitlen_pos [OF n] by (subst powi_nonneg_eq) simp_all
  finally show ?thesis using True by (simp add: ilog2_def n_def)
next
  case False
  define m where "m = \<lceil>1 / x\<rceil> - 1"
  have "1 < 1 / x" using False assms by simp
  then have m: "1 \<le> m" unfolding m_def by (simp add: less_ceiling_iff)
  have "(2::rat) ^ nat (bitlen m - 1) \<le> of_int m" by (rule bitlen_rat_bounds(1) [OF m])
  also have "\<dots> < 1 / x" unfolding m_def by linarith
  finally have "2 ^ nat (bitlen m - 1) < 1 / x" .
  then have "2 ^ nat (bitlen m - 1) * x < 1" using assms by (simp add: pos_less_divide_eq)
  then have "x < 1 / 2 ^ nat (bitlen m - 1)" by (simp add: pos_less_divide_eq mult.commute)
  moreover have "(2::rat) powi (- (bitlen m - 1)) = 1 / 2 ^ nat (bitlen m - 1)"
    using bitlen_pos [OF m] by (intro powi_neg_eq) simp
  ultimately show ?thesis using False by (simp add: ilog2_def m_def)
qed

text \<open>The scaled value that \<open>to_double\<close> rounds to an integer has 53 bits before the
  point, and a natural number below \<open>2 ^ 53\<close>, such as an array length, is a number as it
  is.\<close>

lemma to_double_significand:
  assumes "0 < x"
  shows "2 ^ 52 \<le> x / 2 powi (ilog2 x - 52)" and "x / 2 powi (ilog2 x - 52) < 2 ^ 53"
proof -
  define s :: rat where "s = 2 powi (ilog2 x - 52)"
  have s: "0 < s" by (simp add: s_def)
  have lo: "2 powi (ilog2 x) = s * 2 ^ 52"
    unfolding s_def by (simp add: power_int_diff)
  have hi: "2 powi (ilog2 x + 1) = s * 2 ^ 53"
    unfolding s_def by (simp add: power_int_diff power_int_add)
  have "s * 2 ^ 52 \<le> x" using ilog2_lower [OF assms] lo by simp
  then show "2 ^ 52 \<le> x / 2 powi (ilog2 x - 52)"
    using s unfolding s_def [symmetric] by (simp add: pos_le_divide_eq mult.commute)
  have "x < s * 2 ^ 53" using ilog2_upper [OF assms] hi by simp
  then show "x / 2 powi (ilog2 x - 52) < 2 ^ 53"
    using s unfolding s_def [symmetric] by (simp add: pos_divide_less_eq mult.commute)
qed

lemma round_half_even_of_int: "round_half_even (of_int m) = m"
  by (simp add: round_half_even_def)

lemma to_double_of_nat:
  assumes "n < 2 ^ 53"
  shows "to_double (of_nat n) = of_nat n"
proof (cases "n = 0")
  case True
  then show ?thesis by (simp add: to_double_def)
next
  case False
  define x :: rat where "x = of_nat n"
  have x: "0 < x" using False by (simp add: x_def)
  define j where "j = nat (52 - ilog2 x)"
  have "(of_nat n :: rat) < of_nat (2 ^ 53)" using assms by (simp only: of_nat_less_iff)
  then have "x < 2 powi 53" by (simp add: x_def)
  then have "(2::rat) powi (ilog2 x) < 2 powi 53" using ilog2_lower [OF x] by simp
  then have "ilog2 x < 53"
    using power_int_le_imp_less_exp [of "2::rat" "ilog2 x" 53] by simp
  then have k: "ilog2 x - 52 = - int j" by (simp add: j_def)
  have sc: "x / 2 powi (ilog2 x - 52) = of_int (int n * 2 ^ j)"
    unfolding k by (simp add: power_int_minus x_def field_simps)
  have "to_double x = of_int (int n * 2 ^ j) * 2 powi (- int j)"
    using x by (simp add: to_double_def Let_def sc round_half_even_of_int del: of_int_mult of_int_power) (simp add: k)
  also have "\<dots> = x" by (simp add: power_int_minus x_def field_simps)
  finally show ?thesis by (simp add: x_def)
qed

text \<open>Rounding a positive number to binary64 changes it by at most the fraction
  \<open>2 ^ - 53\<close> of itself.\<close>

lemma to_double_error:
  assumes "0 < x"
  shows "\<bar>to_double x - x\<bar> \<le> x / 2 ^ 53"
proof -
  define k where "k = ilog2 x - 52"
  define s :: rat where "s = 2 powi k"
  define r :: rat where "r = of_int (round_half_even (x / s))"
  have s: "0 < s" by (simp add: s_def)
  have "2 powi (ilog2 x) = s * 2 ^ 52"
    unfolding s_def k_def by (simp add: power_int_diff)
  then have low: "s * 2 ^ 52 \<le> x" using ilog2_lower [OF assms] by simp
  have td: "to_double x = r * s"
    using assms by (simp add: to_double_def k_def s_def r_def Let_def)
  have "r * s - x = (r - x / s) * s" using s by (simp add: left_diff_distrib)
  then have "\<bar>to_double x - x\<bar> = \<bar>r - x / s\<bar> * s"
    using s by (simp add: td abs_mult)
  also have "\<dots> \<le> (1 / 2) * s"
    using round_half_even_error [of "x / s"] s unfolding r_def
    by (intro mult_right_mono) simp_all
  also have "\<dots> \<le> x / 2 ^ 53" using low by simp
  finally show ?thesis .
qed

text \<open>The number \<^verbatim>\<open>enriched / total * 100\<close>: two roundings away from the exact quotient.\<close>

lemma percentage_error:
  fixes e t :: nat
  assumes t: "0 < t" and e: "0 < e"
  defines "Q \<equiv> 100 * of_nat e / of_nat t :: rat"
  shows "\<bar>js_mul (js_div (of_nat e) (of_nat t)) 100 - Q\<bar> \<le> 3 * Q / 2 ^ 53"
proof -
  define q :: rat where "q = of_nat e / of_nat t"
  define x1 where "x1 = to_double q"
  define x2 where "x2 = to_double (x1 * 100)"
  have q: "0 < q" using t e by (simp add: q_def)
  have Q: "Q = 100 * q" by (simp add: Q_def q_def)
  have e1: "\<bar>x1 - q\<bar> \<le> q / 2 ^ 53" unfolding x1_def by (rule to_double_error [OF q])
  have "q / 2 ^ 53 < q" using q by simp
  then have x1: "0 < x1" "x1 \<le> 2 * q" using e1 by linarith+
  then have "0 < x1 * 100" by simp
  then have e2: "\<bar>x2 - x1 * 100\<bar> \<le> x1 * 100 / 2 ^ 53"
    unfolding x2_def by (rule to_double_error)
  have "x1 * 100 / 2 ^ 53 \<le> 200 * (q / 2 ^ 53)" using x1(2) by simp
  then have "\<bar>x2 - 100 * q\<bar> \<le> 300 * (q / 2 ^ 53)" using e1 e2 by linarith
  then show ?thesis
    by (simp add: Q js_mul_def js_div_def x2_def x1_def q_def)
qed

text \<open>\<^verbatim>\<open>Math.round\<close> of a number that is closer than \<open>1 / (2 t)\<close> to a fraction with
  denominator \<open>t\<close>.\<close>

lemma half_gap_upper:
  fixes u t :: int
  assumes t: "0 < t" and lt: "(of_int u :: rat) / (2 * of_int t) < 1 / 2 + 1 / (2 * of_int t)"
  shows "(of_int u :: rat) / (2 * of_int t) \<le> 1 / 2"
proof -
  have pos: "(0::rat) < 2 * of_int t" using t by simp
  have "(of_int u :: rat) / (2 * of_int t) < (of_int t + 1) / (2 * of_int t)"
    using lt t by (simp add: add_divide_distrib)
  then have "(of_int u :: rat) < of_int t + 1"
    using pos by (simp add: divide_less_cancel)
  then have "(of_int u :: rat) < of_int (t + 1)" by simp
  then have "u < t + 1" by (simp only: of_int_less_iff)
  then have "(of_int u :: rat) \<le> of_int t" by simp
  then have "(of_int u :: rat) / (2 * of_int t) \<le> of_int t / (2 * of_int t)"
    using pos by (simp add: divide_le_cancel)
  then show ?thesis using t by simp
qed

lemma pos_gap_lower:
  fixes u t :: int
  assumes t: "0 < t" and gt: "0 < (of_int u :: rat) / (2 * of_int t)"
  shows "1 / (2 * of_int t) \<le> (of_int u :: rat) / (2 * of_int t)"
proof -
  have pos: "(0::rat) < 2 * of_int t" using t by simp
  have "(0::rat) < of_int u" using gt pos by (simp add: zero_less_divide_iff)
  then have "0 < u" by simp
  then have "(1::rat) \<le> of_int u" by simp
  then show ?thesis using pos by (simp add: divide_le_cancel)
qed

lemma Math_round_near_abs:
  fixes a t :: int and x :: rat
  assumes t: "0 < t" and d: "\<bar>x - of_int a / of_int t\<bar> < 1 / (2 * of_int t)"
  shows "\<bar>of_int (Math_round x) - of_int a / of_int t\<bar> \<le> (1 / 2 :: rat)"
proof -
  define p where "p = Math_round x"
  define Q :: rat where "Q = of_int a / of_int t"
  have p: "of_int p \<le> x + 1 / 2" "x + 1 / 2 < of_int p + 1"
    unfolding p_def Math_round_def by linarith+
  have tne: "(of_int t :: rat) \<noteq> 0" using t by simp
  have e1: "of_int p - Q = of_int (2 * t * p - 2 * a) / (2 * of_int t)"
    using tne by (simp add: Q_def diff_divide_distrib)
  have e2: "Q - of_int p = of_int (2 * a - 2 * t * p) / (2 * of_int t)"
    using tne by (simp add: Q_def diff_divide_distrib)
  have "of_int p - Q < 1 / 2 + 1 / (2 * of_int t)" using p(1) d unfolding Q_def by linarith
  then have u: "of_int p - Q \<le> 1 / 2" unfolding e1 by (rule half_gap_upper [OF t])
  have "Q - of_int p < 1 / 2 + 1 / (2 * of_int t)" using p(2) d unfolding Q_def by linarith
  then have l: "Q - of_int p \<le> 1 / 2" unfolding e2 by (rule half_gap_upper [OF t])
  show ?thesis using u l unfolding p_def Q_def by linarith
qed

lemma Math_round_near_eq:
  fixes a t :: int and x :: rat
  assumes t: "0 < t" and d: "\<bar>x - of_int a / of_int t\<bar> < 1 / (2 * of_int t)"
    and nt: "frac (of_int a / of_int t :: rat) \<noteq> 1 / 2"
  shows "Math_round x = round (of_int a / of_int t :: rat)"
proof -
  define Q :: rat where "Q = of_int a / of_int t"
  define n where "n = round Q"
  have n: "of_int n \<le> Q + 1 / 2" "Q + 1 / 2 < of_int n + 1"
    unfolding n_def round_def by linarith+
  have tne: "(of_int t :: rat) \<noteq> 0" using t by simp
  have "of_int n \<noteq> Q + 1 / 2"
  proof
    assume "of_int n = Q + 1 / 2"
    then have "Q - 1 / 2 = of_int (n - 1)" by simp
    then have "Q - 1 / 2 \<in> \<int>" by (metis Ints_of_int)
    then have "frac Q = 1 / 2" unfolding frac_unique_iff by simp
    then show False using nt by (simp add: Q_def)
  qed
  then have lo: "0 < Q + 1 / 2 - of_int n" using n(1) by linarith
  have e1: "Q + 1 / 2 - of_int n = of_int (2 * a + t - 2 * t * n) / (2 * of_int t)"
    using tne by (simp add: Q_def diff_divide_distrib add_divide_distrib)
  have e2: "of_int n + 1 - (Q + 1 / 2) = of_int (2 * t * n + t - 2 * a) / (2 * of_int t)"
    using tne by (simp add: Q_def diff_divide_distrib add_divide_distrib)
  have g1: "1 / (2 * of_int t) \<le> Q + 1 / 2 - of_int n"
    using lo unfolding e1 by (rule pos_gap_lower [OF t])
  have "0 < of_int n + 1 - (Q + 1 / 2)" using n(2) by linarith
  then have g2: "1 / (2 * of_int t) \<le> of_int n + 1 - (Q + 1 / 2)"
    unfolding e2 by (rule pos_gap_lower [OF t])
  have "of_int n \<le> x + 1 / 2" "x + 1 / 2 < of_int n + 1"
    using g1 g2 d unfolding Q_def by linarith+
  then have "\<lfloor>x + 1 / 2\<rfloor> = n" by (intro floor_unique)
  then show ?thesis by (simp add: Math_round_def n_def Q_def)
qed

section \<open>The statistics\<close>

lemma getEnrichmentStats_ok:
  "getEnrichmentStats st NoFault NoFault =
     \<lparr>stats_total = eligible_count st, enriched = enriched_count st,
      percentage = (if 0 < eligible_count st
                    then Math_round (js_mul (js_div (of_nat (enriched_count st))
                                                    (of_nat (eligible_count st))) 100)
                    else 0)\<rparr>"
  by (simp add: getEnrichmentStats_def run_query_def length_or_0_def
        eligible_count_def enriched_count_def)

lemma js_percentage_close:
  fixes e t :: nat
  assumes t: "0 < t" and e: "e < 2 ^ 32"
  shows "\<bar>js_mul (js_div (of_nat e) (of_nat t)) 100 - of_int (100 * int e) / of_int (int t)\<bar>
           < (1 / (2 * of_int (int t)) :: rat)"
proof (cases "e = 0")
  case True
  then show ?thesis using t by (simp add: js_mul_def js_div_def to_double_def)
next
  case False
  then have e0: "0 < e" by simp
  define Q :: rat where "Q = 100 * of_nat e / of_nat t"
  have err: "\<bar>js_mul (js_div (of_nat e) (of_nat t)) 100 - Q\<bar> \<le> 3 * Q / 2 ^ 53"
    unfolding Q_def by (rule percentage_error [OF t e0])
  have "(of_nat e :: rat) < of_nat (2 ^ 32)" using e by (simp only: of_nat_less_iff)
  then have E: "(of_nat e :: rat) < 2 ^ 32" by simp
  have tpos: "(0::rat) < of_nat t" using t by simp
  have "3 * Q / 2 ^ 53 = (600 * of_nat e / 2 ^ 53) / (2 * of_nat t)"
    by (simp add: Q_def)
  also have "\<dots> < 1 / (2 * of_nat t)"
    using E tpos by (intro divide_strict_right_mono) simp_all
  finally have "3 * Q / 2 ^ 53 < 1 / (2 * of_nat t)" .
  moreover have "Q = of_int (100 * int e) / of_int (int t)" by (simp add: Q_def)
  ultimately show ?thesis using err by simp
qed

text \<open>
  C8 (as amended): \<^verbatim>\<open>getEnrichmentStats\<close>, both queries succeeding, returns percentage 0
  when the total (the number of preschools with a latitude) is 0, and no division is made
  then. When the total is positive and the enriched count is an array length (below
  \<open>2 ^ 32\<close>), the percentage is an integer nearest to \<open>100 * enriched / total\<close>: it is at
  most a half away from it, and it is \<open>round (100 * enriched / total)\<close> (a tie going up,
  as \<^verbatim>\<open>Math.round\<close> does) unless \<open>100 * enriched / total\<close> lies exactly half-way
  between two integers.
\<close>

theorem percentage_is_a_nearest_integer:
  "(eligible_count st = 0 \<longrightarrow> percentage (getEnrichmentStats st NoFault NoFault) = 0)
   \<and> (0 < eligible_count st \<and> enriched_count st < 2 ^ 32 \<longrightarrow>
        \<bar>of_int (percentage (getEnrichmentStats st NoFault NoFault))
           - 100 * of_nat (enriched_count st) / of_nat (eligible_count st)\<bar> \<le> (1 / 2 :: rat)
      \<and> (frac (100 * of_nat (enriched_count st) / of_nat (eligible_count st) :: rat) \<noteq> 1 / 2 \<longrightarrow>
            percentage (getEnrichmentStats st NoFault NoFault)
              = round (100 * of_nat (enriched_count st) / of_nat (eligible_count st) :: rat)))"
proof -
  define t where "t = eligible_count st"
  define e where "e = enriched_count st"
  define x where "x = js_mul (js_div (of_nat e) (of_nat t)) 100"
  have Qeq: "(100 * of_nat e / of_nat t :: rat) = of_int (100 * int e) / of_int (int t)"
    by simp
  have zero: "percentage (getEnrichmentStats st NoFault NoFault) = 0" if "t = 0"
    using that by (simp add: getEnrichmentStats_ok t_def)
  have pos: "percentage (getEnrichmentStats st NoFault NoFault) = Math_round x" if "0 < t"
    using that by (simp add: getEnrichmentStats_ok t_def e_def x_def)
  have near: "\<bar>of_int (Math_round x) - 100 * of_nat e / of_nat t\<bar> \<le> (1 / 2 :: rat)"
    if "0 < t" "e < 2 ^ 32"
  proof -
    have "0 < int t" using that by simp
    then show ?thesis
      unfolding Qeq x_def by (rule Math_round_near_abs) (rule js_percentage_close [OF that])
  qed
  have eq: "Math_round x = round (100 * of_nat e / of_nat t :: rat)"
    if "0 < t" "e < 2 ^ 32" "frac (100 * of_nat e / of_nat t :: rat) \<noteq> 1 / 2"
  proof -
    have "0 < int t" using that by simp
    moreover have "frac (of_int (100 * int e) / of_int (int t) :: rat) \<noteq> 1 / 2"
      using that(3) unfolding Qeq .
    ultimately show ?thesis
      unfolding Qeq x_def
      by (intro Math_round_near_eq js_percentage_close that)
  qed
  show ?thesis
    using zero pos near eq unfolding t_def [symmetric] e_def [symmetric] by auto
qed

theorem percentage_is_a_nearest_integer_witness:
  "eligible_count (store_of 0 2) = 0
   \<and> percentage (getEnrichmentStats (store_of 0 2) NoFault NoFault) = 0
   \<and> 0 < eligible_count (store_of 40 23) \<and> enriched_count (store_of 40 23) < 2 ^ 32
   \<and> \<bar>of_int (percentage (getEnrichmentStats (store_of 40 23) NoFault NoFault)) - 115 / 2\<bar>
        \<le> (1 / 2 :: rat)
   \<and> 0 < eligible_count (store_of 7 3) \<and> enriched_count (store_of 7 3) < 2 ^ 32
   \<and> frac (100 * 3 / 7 :: rat) \<noteq> 1 / 2
   \<and> percentage (getEnrichmentStats (store_of 7 3) NoFault NoFault) = 43"
proof -
  have a: "eligible_count (store_of 0 2) = 0" by code_simp
  have b: "eligible_count (store_of 40 23) = 40" "enriched_count (store_of 40 23) = 23"
    by code_simp+
  have c: "eligible_count (store_of 7 3) = 7" "enriched_count (store_of 7 3) = 3"
    by code_simp+
  have nt: "frac (100 * 3 / 7 :: rat) \<noteq> 1 / 2" by code_simp
  have r: "round (100 * 3 / 7 :: rat) = 43" by code_simp
  have 1: "percentage (getEnrichmentStats (store_of 0 2) NoFault NoFault) = 0"
    using percentage_is_a_nearest_integer [of "store_of 0 2"] a by blast
  have 2: "\<bar>of_int (percentage (getEnrichmentStats (store_of 40 23) NoFault NoFault)) - 115 / 2\<bar>
        \<le> (1 / 2 :: rat)"
    using percentage_is_a_nearest_integer [of "store_of 40 23"] by (simp add: b)
  have 3: "percentage (getEnrichmentStats (store_of 7 3) NoFault NoFault) = 43"
    using percentage_is_a_nearest_integer [of "store_of 7 3"] nt r by (simp add: c)
  show ?thesis using a b c nt 1 2 3 by simp
qed

text \<open>
  With a total of 40 and 23 enriched preschools the exact value is 57.5, which rounds
  to 58, and the percentage returned is 57: \<^verbatim>\<open>23 / 40\<close> is rounded to a number below
  0.575, and its product with 100 to a number below 57.5. With 8 and 1 the exact value
  12.5 is returned as 13, so the percentage is not the exact value rounded with ties to
  even either.
\<close>

theorem percentage_differs_from_exact_rounding:
  "eligible_count (store_of 40 23) = 40 \<and> enriched_count (store_of 40 23) = 23
   \<and> percentage (getEnrichmentStats (store_of 40 23) NoFault NoFault) = 57
   \<and> round (100 * 23 / 40 :: rat) = 58
   \<and> eligible_count (store_of 8 1) = 8 \<and> enriched_count (store_of 8 1) = 1
   \<and> percentage (getEnrichmentStats (store_of 8 1) NoFault NoFault) = 13
   \<and> round_half_even (100 * 1 / 8) = 12"
  by code_simp

lemma thrown_query_gives_zero_stats:
  "getEnrichmentStats st (Throws m) f2 = zero_stats"
  "getEnrichmentStats st NoFault (Throws m) = zero_stats"
  "getEnrichmentStats st (ReportsError m') (Throws m) = zero_stats"
  by (simp_all add: getEnrichmentStats_def run_query_def)

text \<open>
  C9: With a total of 40 and 23 enriched preschools, a second query that reports an
  error (and does not throw) gives \<open>{total: 40, enriched: 0, percentage: 0}\<close>, and a first
  query that reports an error gives \<open>{total: 0, enriched: 23, percentage: 0}\<close>; neither is
  the zero-value object.
\<close>

theorem reported_query_error_gives_partial_stats:
  "getEnrichmentStats (store_of 40 23) NoFault (ReportsError ''timeout'')
     = \<lparr>stats_total = 40, enriched = 0, percentage = 0\<rparr>
   \<and> getEnrichmentStats (store_of 40 23) (ReportsError ''timeout'') NoFault
     = \<lparr>stats_total = 0, enriched = 23, percentage = 0\<rparr>"
  by code_simp

end
